theory Spec2Isabelle
  imports Complex_Main "HOL-Library.Word" "HOL-Library.Signed_Division" "HOL-Library.Sublist"
begin

unbundle bit_operations_syntax

section \<open>Single-precision arithmetic of \<^verbatim>\<open>fraction_of_FFF\<close>\<close>

text \<open>
  \<^verbatim>\<open>fraction_of_FFF\<close> computes in C \<^verbatim>\<open>float\<close>. On the target (Atmel SAM, ARM EABI) that is
  IEEE 754 binary32 with round-to-nearest, ties-to-even, every operation rounded to the
  format. A finite binary32 value is a rational \<open>m * 2 ^ e\<close> with \<open>\<bar>m\<bar> < 2 ^ 24\<close> and
  \<open>- 149 \<le> e\<close>; the values are modelled as such rationals and each operation as the exact
  rational operation followed by \<open>f32_round\<close>.

  \<open>rne\<close> rounds a rational to the nearest integer, ties to the even one.
  \<open>f32_exp_from (- 149) x\<close> is the exponent of the unit in the last place for a magnitude
  \<open>x\<close>: the least \<open>e \<ge> - 149\<close> with \<open>x < 2 ^ (e + 24)\<close> (\<open>- 149\<close> is the exponent of the
  subnormal numbers). The operands of this program are 32-bit integers, their quotients and
  \<open>4095\<close> times such a quotient, all of magnitude below \<open>2 ^ 44\<close>, so the upper end of the
  exponent range (overflow to infinity) is never reached and is not modelled; a zero
  divisor is handled in \<open>fraction_of_FFF\<close> itself.
\<close>

definition rne :: "rat \<Rightarrow> int" where
  "rne x = (let f = \<lfloor>x\<rfloor>; d = x - of_int f in
     if d < 1 / 2 then f else if 1 / 2 < d then f + 1 else if even f then f else f + 1)"

function f32_exp_from :: "int \<Rightarrow> rat \<Rightarrow> int" where
  "f32_exp_from e x = (if x < 2 powi (e + 24) then e else f32_exp_from (e + 1) x)"
  by pat_completeness auto
termination
proof (relation "measure (\<lambda>(e, x). nat (\<lceil>x\<rceil> - e))", goal_cases)
  case 1
  show ?case by simp
next
  case (2 e x)
  have below: "(of_int e :: rat) < 2 powi (e + 24)"
  proof (cases "0 \<le> e + 24")
    case True
    define n where "n = nat (e + 24)"
    have "int n < 2 ^ n" by (rule of_nat_less_two_power)
    with True have "e < 2 ^ n" by (simp add: n_def)
    then have "(of_int e :: rat) < of_int (2 ^ n)" by (simp only: of_int_less_iff)
    with True show ?thesis by (simp add: power_int_def n_def)
  next
    case False
    then have "(of_int e :: rat) < 0" by simp
    also have "(0 :: rat) < 2 powi (e + 24)" by (simp add: zero_less_power_int)
    finally show ?thesis .
  qed
  with 2 have "of_int e < x" by simp
  then have "e < \<lceil>x\<rceil>" by (simp add: less_ceiling_iff)
  then show ?case by simp
qed

declare f32_exp_from.simps [simp del]

definition f32_round :: "rat \<Rightarrow> rat" where
  "f32_round x = (let e = f32_exp_from (- 149) \<bar>x\<bar> in of_int (rne (x / 2 powi e)) * 2 powi e)"

text \<open>
  The conversion \<^verbatim>\<open>(uint16_t) output\<close> discards the fractional part. C defines it only when
  the truncated value fits the target type; otherwise (also after a division by zero, whose
  result is an infinity or a NaN) the result is \<open>None\<close>.
\<close>

definition f32_to_uint16 :: "rat \<Rightarrow> 16 word option" where
  "f32_to_uint16 x =
     (if - 1 < x \<and> x < 65536 then Some (word_of_int (if 0 \<le> x then \<lfloor>x\<rfloor> else \<lceil>x\<rceil>)) else None)"

section \<open>Data\<close>

text \<open>
  \<^verbatim>\<open>long\<close> is a 32-bit two's-complement integer on the target; comparisons, \<^verbatim>\<open>/\<close> and \<^verbatim>\<open>>>\<close>
  are the signed ones, \<^verbatim>\<open>+\<close>, \<^verbatim>\<open>-\<close> and \<^verbatim>\<open><<\<close> wrap around.
\<close>

type_synonym long = "32 word"

datatype wave_type = SQUARE | SAW | TRI

record voices =
  v_enable :: bool
  v_type :: wave_type
  v_counter :: long
  v_period :: long

text \<open>
  The globals of \<^verbatim>\<open>main.c\<close> that the application functions and the tasks use. The array
  \<^verbatim>\<open>active_voices[4]\<close> is a function of the index, of which only the indices \<open>0..3\<close> are ever
  read or written. The two FreeRTOS queues are the lists of their pending items, oldest
  first. \<open>spi_sent\<close> is the sequence of buffers handed to \<^verbatim>\<open>spi_write_buffer_wait\<close> so far.
  \<open>UARTsem\<close> is the state of the binary semaphore of that name: \<open>True\<close> when it has been
  given and not yet taken.
\<close>

record synth =
  active_voices :: "nat \<Rightarrow> voices"
  full_queue_flag :: bool
  sample_buffer :: "16 word"
  sampleQueue :: "16 word list"
  messageQueue :: "8 word list"
  spi_sent :: "8 word list list"
  UARTsem :: bool

section \<open>Application functions\<close>

definition f32_of_long :: "long \<Rightarrow> rat" where
  "f32_of_long n = f32_round (of_int (sint n))"

definition fraction_of_FFF :: "long \<Rightarrow> long \<Rightarrow> 16 word option" where
  "fraction_of_FFF num den =
     (let num_f = f32_of_long num;
          den_f = f32_of_long den;
          output = (4095 :: rat)
      in if den_f = 0 then None
         else f32_to_uint16 (f32_round (output * f32_round (num_f / den_f))))"

text \<open>Signed division of two \<^verbatim>\<open>long\<close>s, truncating towards zero.\<close>

definition long_div :: "long \<Rightarrow> long \<Rightarrow> long" where
  "long_div a b = word_of_int (sint a sdiv sint b)"

text \<open>
  \<open>evaluate\<close> is the amount that lines 141 to 164 of \<^verbatim>\<open>sample_calc\<close> add to
  \<^verbatim>\<open>sample_buffer\<close> for an enabled voice of the given waveform, counter and period.
\<close>

definition evaluate :: "wave_type \<Rightarrow> long \<Rightarrow> long \<Rightarrow> 16 word option" where
  "evaluate ty counter period =
     (case ty of
        SQUARE \<Rightarrow>
          Some (if counter \<le>s long_div period 2 then drop_bit 2 (0xFFF :: 16 word) else 0)
      | SAW \<Rightarrow> map_option (drop_bit 2) (fraction_of_FFF counter period)
      | TRI \<Rightarrow>
          if counter \<le>s signed_drop_bit 1 period
          then map_option (drop_bit 2) (fraction_of_FFF (push_bit 1 counter) period)
          else if signed_drop_bit 1 period <s counter
          then map_option (drop_bit 2) (fraction_of_FFF (push_bit 1 (period - counter)) period)
          else Some 0)"

text \<open>
  One pass of the body of the \<^verbatim>\<open>for\<close> loop of \<^verbatim>\<open>sample_calc\<close>, for the index \<open>j\<close>. The
  index, a global of the source that nothing else reads between two calls, is the
  argument of the loop function below.
\<close>

definition sample_calc_voice :: "nat \<Rightarrow> synth \<Rightarrow> synth option" where
  "sample_calc_voice j s =
     (let s0 = s\<lparr>sample_buffer := 0\<rparr>;
          v = active_voices s0 j
      in if v_enable v
         then (case evaluate (v_type v) (v_counter v) (v_period v) of
                 None \<Rightarrow> None
               | Some a \<Rightarrow>
                   Some (s0\<lparr>sample_buffer := sample_buffer s0 + a,
                            active_voices := (active_voices s0)
                              (j := v\<lparr>v_counter :=
                                 (if v_counter v <s v_period v then v_counter v + 1 else 0)\<rparr>)\<rparr>))
         else Some s0)"

function sample_calc_loop :: "nat \<Rightarrow> synth \<Rightarrow> synth option" where
  "sample_calc_loop j s =
     (if j < 4
      then (case sample_calc_voice j s of
              None \<Rightarrow> None
            | Some s' \<Rightarrow> sample_calc_loop (j + 1) s')
      else Some s)"
  by pat_completeness auto
termination
  by (relation "measure (\<lambda>(j, s). 4 - j)") auto

declare sample_calc_loop.simps [simp del]

definition sample_calc :: "synth \<Rightarrow> synth option" where
  "sample_calc s = sample_calc_loop 0 s"

text \<open>\<open>n\<close> successive calls of \<^verbatim>\<open>sample_calc\<close>.\<close>

fun sample_calc_n :: "nat \<Rightarrow> synth \<Rightarrow> synth option" where
  "sample_calc_n 0 s = Some s"
| "sample_calc_n (Suc n) s =
     (case sample_calc s of None \<Rightarrow> None | Some s' \<Rightarrow> sample_calc_n n s')"

text \<open>
  \<^verbatim>\<open>union u16_to_u8\<close> on the little-endian target: \<^verbatim>\<open>u8[0]\<close> is the low byte of \<^verbatim>\<open>u16\<close>,
  \<^verbatim>\<open>u8[1]\<close> the high byte.
\<close>

definition u16_to_u8 :: "16 word \<Rightarrow> 8 word list" where
  "u16_to_u8 u16 = [ucast u16, ucast (drop_bit 8 u16)]"

definition DAC_CMD_MASK :: "16 word" where
  "DAC_CMD_MASK = 0x3000"

text \<open>The result is the buffer \<^verbatim>\<open>sent_bytes\<close> that is written to the SPI peripheral.\<close>

definition write_to_MCP4821 :: "16 word \<Rightarrow> 8 word list" where
  "write_to_MCP4821 input16 =
     (let sample_to_send = u16_to_u8 ((input16 AND 0xFFF) OR DAC_CMD_MASK);
          sent_bytes = [sample_to_send ! 1, sample_to_send ! 0]
      in sent_bytes)"

section \<open>Queues and tasks\<close>

text \<open>
  The FreeRTOS queue calls, on a queue of capacity \<open>cap\<close>. The status \<^verbatim>\<open>pdTRUE\<close> is \<open>True\<close>.
  \<^verbatim>\<open>xQueueSendToBackFromISR\<close> and \<^verbatim>\<open>xQueueReceive\<close> with a zero timeout never wait.
  \<^verbatim>\<open>xQueueSendToBack\<close> waits for a bounded time when the queue is full; \<open>freed\<close> says whether
  the reader of the queue takes its oldest item within that time.
\<close>

definition xQueueSendToBackFromISR :: "nat \<Rightarrow> 'a list \<Rightarrow> 'a \<Rightarrow> bool \<times> 'a list" where
  "xQueueSendToBackFromISR cap q x = (if length q < cap then (True, q @ [x]) else (False, q))"

definition xQueueSendToBack :: "nat \<Rightarrow> bool \<Rightarrow> 'a list \<Rightarrow> 'a \<Rightarrow> bool \<times> 'a list" where
  "xQueueSendToBack cap freed q x =
     (if length q < cap then (True, q @ [x])
      else if freed \<and> q \<noteq> [] \<and> 0 < cap then (True, tl q @ [x])
      else (False, q))"

definition xQueueReceive :: "'a list \<Rightarrow> ('a \<times> 'a list) option" where
  "xQueueReceive q = (case q of [] \<Rightarrow> None | x # q' \<Rightarrow> Some (x, q'))"

text \<open>
  \<^verbatim>\<open>vSampleCalcTask\<close>, from one arrival at the test of \<^verbatim>\<open>while(full_queue_flag)\<close> to the next:
  either one pass of the retry loop, or \<^verbatim>\<open>sample_calc\<close> and the enqueue that follows it.
\<close>

definition vSampleCalcTask_step :: "nat \<Rightarrow> synth \<Rightarrow> synth option" where
  "vSampleCalcTask_step cap s =
     (if full_queue_flag s
      then (let (xStatus, q) = xQueueSendToBackFromISR cap (sampleQueue s) (sample_buffer s)
            in Some (s\<lparr>sampleQueue := q,
                       full_queue_flag := (if xStatus then False else full_queue_flag s)\<rparr>))
      else (case sample_calc s of
              None \<Rightarrow> None
            | Some s1 \<Rightarrow>
                (let (xStatus, q) =
                       xQueueSendToBackFromISR cap (sampleQueue s1) (sample_buffer s1)
                 in Some (s1\<lparr>sampleQueue := q,
                             full_queue_flag := (if \<not> xStatus then True else full_queue_flag s1)\<rparr>))))"

text \<open>One pass of the loop of \<^verbatim>\<open>vPeriodicSPITask\<close>, up to its \<^verbatim>\<open>vTaskDelayUntil\<close>.\<close>

definition vPeriodicSPITask_step :: "synth \<Rightarrow> synth" where
  "vPeriodicSPITask_step s =
     (case xQueueReceive (sampleQueue s) of
        None \<Rightarrow> s
      | Some (sample_to_send, q) \<Rightarrow>
          s\<lparr>sampleQueue := q, spi_sent := spi_sent s @ [write_to_MCP4821 sample_to_send]\<rparr>)"

text \<open>
  The inner loop of \<^verbatim>\<open>vUARTHandlerTask\<close>, run after each \<^verbatim>\<open>xSemaphoreTake\<close>. \<open>rx\<close> holds
  the data that \<^verbatim>\<open>usart_read_wait\<close> returns with \<^verbatim>\<open>STATUS_OK\<close>, in order, before its first
  other status, which ends the loop. \<open>env\<close> gives, for each push in turn, whether a slot of
  a full queue is freed within the wait (no entry: not freed).
\<close>

fun vUARTHandlerTask_drain :: "nat \<Rightarrow> 16 word list \<Rightarrow> bool list \<Rightarrow> 8 word list \<Rightarrow> 8 word list" where
  "vUARTHandlerTask_drain cap [] env q = q"
| "vUARTHandlerTask_drain cap (temp # rx) env q =
     (let temp8 = (ucast temp :: 8 word);
          (xStatus, q') = xQueueSendToBack cap (case env of [] \<Rightarrow> False | f # _ \<Rightarrow> f) q temp8
      in vUARTHandlerTask_drain cap rx (tl env) q')"

text \<open>
  The interrupt handler \<^verbatim>\<open>usart_read_callback\<close> gives the semaphore. One pass of the outer
  loop of \<^verbatim>\<open>vUARTHandlerTask\<close> starts at \<^verbatim>\<open>xSemaphoreTake\<close> with \<^verbatim>\<open>portMAX_DELAY\<close>, a wait without
  a time limit: while the semaphore has not been given the task stays blocked there and
  the pass changes nothing; otherwise the semaphore is taken and the drain loop runs on the
  data \<open>rx\<close> that the reader reports during this pass.
\<close>

definition usart_read_callback :: "synth \<Rightarrow> synth" where
  "usart_read_callback s = s\<lparr>UARTsem := True\<rparr>"

definition vUARTHandlerTask_pass :: "nat \<Rightarrow> 16 word list \<Rightarrow> bool list \<Rightarrow> synth \<Rightarrow> synth" where
  "vUARTHandlerTask_pass cap rx env s =
     (if UARTsem s
      then s\<lparr>UARTsem := False,
             messageQueue := vUARTHandlerTask_drain cap rx env (messageQueue s)\<rparr>
      else s)"

text \<open>
  One pass of the loop of \<^verbatim>\<open>vMIDIInterpreter\<close>: a received byte is taken off the queue and
  the branch that should interpret it is empty; without a byte the task yields.
\<close>

definition vMIDIInterpreter_step :: "synth \<Rightarrow> synth" where
  "vMIDIInterpreter_step s =
     (case xQueueReceive (messageQueue s) of
        None \<Rightarrow> s
      | Some (MIDI_message, q) \<Rightarrow> s\<lparr>messageQueue := q\<rparr>)"

fun vMIDIInterpreter_n :: "nat \<Rightarrow> synth \<Rightarrow> synth" where
  "vMIDIInterpreter_n 0 s = s"
| "vMIDIInterpreter_n (Suc n) s = vMIDIInterpreter_n n (vMIDIInterpreter_step s)"

text \<open>The voice array after static initialisation, and a voice bank with given voices.\<close>

definition voice_off :: voices where
  "voice_off = \<lparr>v_enable = False, v_type = SQUARE, v_counter = 0, v_period = 0\<rparr>"

definition synth_init :: synth where
  "synth_init = \<lparr>active_voices = (\<lambda>_. voice_off), full_queue_flag = False, sample_buffer = 0,
     sampleQueue = [], messageQueue = [], spi_sent = [], UARTsem = False\<rparr>"

text \<open>
  Two abbreviations for the statements below, both read off the loop body: what one pass
  does to the voice it visits, and what it leaves in \<^verbatim>\<open>sample_buffer\<close>.
\<close>

definition voice_tick :: "voices \<Rightarrow> voices" where
  "voice_tick v =
     (if v_enable v
      then v\<lparr>v_counter := (if v_counter v <s v_period v then v_counter v + 1 else 0)\<rparr>
      else v)"

definition voice_sample :: "voices \<Rightarrow> 16 word option" where
  "voice_sample v =
     (if v_enable v then evaluate (v_type v) (v_counter v) (v_period v) else Some 0)"

text \<open>
  The condition of the data model on a voice: a period of at least one and a counter
  between zero and the period.
\<close>

definition voice_ok :: "voices \<Rightarrow> bool" where
  "voice_ok v \<longleftrightarrow> 1 \<le> sint (v_period v) \<and> 0 \<le> sint (v_counter v) \<and> sint (v_counter v) \<le> sint (v_period v)"

definition bank_ok :: "synth \<Rightarrow> bool" where
  "bank_ok s \<longleftrightarrow> (\<forall>i < 4. v_enable (active_voices s i) \<longrightarrow> voice_ok (active_voices s i))"

text \<open>
  The start of \<^verbatim>\<open>main\<close>: voice \<open>0\<close> enabled with a waveform, a counter and a period, the
  other three voices as zero-initialised.
\<close>

definition single_voice :: "wave_type \<Rightarrow> long \<Rightarrow> long \<Rightarrow> synth" where
  "single_voice ty counter period =
     synth_init\<lparr>active_voices := (active_voices synth_init)
       (0 := \<lparr>v_enable = True, v_type = ty, v_counter = counter, v_period = period\<rparr>)\<rparr>"

text \<open>
  The composite sample in the words of the specification, for comparison with what
  \<^verbatim>\<open>sample_calc\<close> leaves in \<^verbatim>\<open>sample_buffer\<close>: the sum of the values of the enabled voices.
\<close>

definition spec_compute :: "synth \<Rightarrow> 16 word option" where
  "spec_compute s =
     map_option sum_list (those (map (\<lambda>i. voice_sample (active_voices s i)) [0, 1, 2, 3]))"

text \<open>
  Runs of the producer and of the output task, which shares the sample queue with it:
  \<open>Producer\<close> is one \<open>vSampleCalcTask_step\<close>, \<open>Output\<close> one \<open>vPeriodicSPITask_step\<close>.
\<close>

datatype event = Producer | Output

fun run :: "nat \<Rightarrow> event list \<Rightarrow> synth \<Rightarrow> synth option" where
  "run cap [] s = Some s"
| "run cap (Producer # es) s =
     (case vSampleCalcTask_step cap s of None \<Rightarrow> None | Some s' \<Rightarrow> run cap es s')"
| "run cap (Output # es) s = run cap es (vPeriodicSPITask_step s)"

text \<open>
  \<open>stalled p s\<close>: the task is in its retry loop with the sample \<open>fst p\<close> pending and the
  voices \<open>snd p\<close>.
\<close>

definition stalled :: "16 word \<times> (nat \<Rightarrow> voices) \<Rightarrow> synth \<Rightarrow> bool" where
  "stalled p s \<longleftrightarrow> full_queue_flag s \<and> sample_buffer s = fst p \<and> active_voices s = snd p"

text \<open>
  For comparison with \<open>run\<close>: \<open>output_passes es s\<close> is \<open>s\<close> after the output-task passes
  of \<open>es\<close> alone, the producer passes left out. \<open>first_room cap es s\<close> finds the first
  producer pass of \<open>es\<close> at which, after the output-task passes before it, the sample
  queue has a free slot, and splits \<open>es\<close> there into the events before and after that
  pass; it is \<open>None\<close> when every producer pass of \<open>es\<close> meets a full queue.
\<close>

fun output_passes :: "event list \<Rightarrow> synth \<Rightarrow> synth" where
  "output_passes [] s = s"
| "output_passes (Output # es) s = output_passes es (vPeriodicSPITask_step s)"
| "output_passes (Producer # es) s = output_passes es s"

fun first_room :: "nat \<Rightarrow> event list \<Rightarrow> synth \<Rightarrow> (event list \<times> event list) option" where
  "first_room cap [] s = None"
| "first_room cap (Output # es) s =
     map_option (\<lambda>(es1, es2). (Output # es1, es2)) (first_room cap es (vPeriodicSPITask_step s))"
| "first_room cap (Producer # es) s =
     (if length (sampleQueue s) < cap then Some ([], es)
      else map_option (\<lambda>(es1, es2). (Producer # es1, es2)) (first_room cap es s))"

section \<open>Rounding to single precision\<close>

lemma f32_exp_from_ge: "e0 \<le> f32_exp_from e0 x"
proof (induction e0 x rule: f32_exp_from.induct)
  case (1 e x)
  show ?case
  proof (cases "x < 2 powi (e + 24)")
    case True
    then show ?thesis by (simp add: f32_exp_from.simps [of e x])
  next
    case False
    with 1 have "e + 1 \<le> f32_exp_from (e + 1) x" by simp
    with False show ?thesis by (simp add: f32_exp_from.simps [of e x])
  qed
qed

lemma f32_exp_from_upper: "x < 2 powi (f32_exp_from e0 x + 24)"
proof (induction e0 x rule: f32_exp_from.induct)
  case (1 e x)
  then show ?case by (cases "x < 2 powi (e + 24)") (simp_all add: f32_exp_from.simps [of e x])
qed

lemma f32_exp_from_lower: "e0 < f32_exp_from e0 x \<Longrightarrow> 2 powi (f32_exp_from e0 x + 23) \<le> x"
proof (induction e0 x rule: f32_exp_from.induct)
  case (1 e x)
  show ?case
  proof (cases "x < 2 powi (e + 24)")
    case True
    with 1(2) show ?thesis by (simp add: f32_exp_from.simps [of e x])
  next
    case False
    have eq: "f32_exp_from e x = f32_exp_from (e + 1) x"
      using False by (simp add: f32_exp_from.simps [of e x])
    show ?thesis
    proof (cases "e + 1 < f32_exp_from (e + 1) x")
      case True
      with 1(1) False show ?thesis by (simp add: eq)
    next
      case False
      with f32_exp_from_ge [of "e + 1" x] have "f32_exp_from (e + 1) x = e + 1" by simp
      with \<open>\<not> x < 2 powi (e + 24)\<close> show ?thesis by (simp add: eq add.commute)
    qed
  qed
qed

lemma f32_exp_from_least: "e0 \<le> e \<Longrightarrow> x < 2 powi (e + 24) \<Longrightarrow> f32_exp_from e0 x \<le> e"
proof (induction e0 x rule: f32_exp_from.induct)
  case (1 e0 x)
  show ?case
  proof (cases "x < 2 powi (e0 + 24)")
    case True
    with 1(2) show ?thesis by (simp add: f32_exp_from.simps [of e0 x])
  next
    case False
    have "e0 \<noteq> e" using False 1(3) by auto
    with 1(2) have "e0 + 1 \<le> e" by simp
    with 1(1) False 1(3) have "f32_exp_from (e0 + 1) x \<le> e" by simp
    with False show ?thesis by (simp add: f32_exp_from.simps [of e0 x])
  qed
qed

lemma f32_exp_from_mono: "x \<le> y \<Longrightarrow> f32_exp_from e0 x \<le> f32_exp_from e0 y"
  by (rule f32_exp_from_least [OF f32_exp_from_ge])
     (rule le_less_trans [OF _ f32_exp_from_upper])

lemma rne_of_int: "rne (of_int n) = n"
  by (simp add: rne_def)

lemma rne_mono: "x \<le> y \<Longrightarrow> rne x \<le> rne y"
proof -
  assume le: "x \<le> y"
  then have fl: "\<lfloor>x\<rfloor> \<le> \<lfloor>y\<rfloor>" by (rule floor_mono)
  show ?thesis
  proof (cases "\<lfloor>x\<rfloor> = \<lfloor>y\<rfloor>")
    case True
    with le show ?thesis by (auto simp: rne_def Let_def)
  next
    case False
    with fl have "\<lfloor>x\<rfloor> + 1 \<le> \<lfloor>y\<rfloor>" by simp
    moreover have "rne x \<le> \<lfloor>x\<rfloor> + 1" by (simp add: rne_def Let_def)
    moreover have "\<lfloor>y\<rfloor> \<le> rne y" by (simp add: rne_def Let_def)
    ultimately show ?thesis by linarith
  qed
qed

lemma f32_round_nonneg: "0 \<le> x \<Longrightarrow> 0 \<le> f32_round x"
proof -
  assume "0 \<le> x"
  then have "0 \<le> x / 2 powi f32_exp_from (- 149) \<bar>x\<bar>" by simp
  then have "rne 0 \<le> rne (x / 2 powi f32_exp_from (- 149) \<bar>x\<bar>)" by (rule rne_mono)
  then have "0 \<le> rne (x / 2 powi f32_exp_from (- 149) \<bar>x\<bar>)"
    using rne_of_int [of 0] by simp
  then show ?thesis by (simp add: f32_round_def Let_def)
qed

lemma f32_round_exact:
  assumes e: "- 149 \<le> e" and m: "\<bar>m\<bar> < 2 ^ 24"
  shows "f32_round (of_int m * 2 powi e) = of_int m * 2 powi e"
proof -
  let ?x = "(of_int m :: rat) * 2 powi e"
  define E where "E = f32_exp_from (- 149) \<bar>?x\<bar>"
  have "\<bar>?x\<bar> = of_int \<bar>m\<bar> * 2 powi e" by (simp add: abs_mult)
  also have "\<dots> < of_int (2 ^ 24) * 2 powi e"
    using m by (intro mult_strict_right_mono) (simp_all only: of_int_less_iff zero_less_power_int zero_less_numeral)
  also have "\<dots> = 2 powi (e + 24)" by (simp add: power_int_add)
  finally have "E \<le> e" unfolding E_def using e by (intro f32_exp_from_least)
  then obtain k where k: "e = E + int k" by (metis zle_iff_zadd)
  have "?x / 2 powi E = of_int (m * 2 ^ k)"
    by (simp add: k power_int_add)
  then have "rne (?x / 2 powi E) = m * 2 ^ k" by (simp only: rne_of_int)
  then have "f32_round ?x = of_int (m * 2 ^ k) * 2 powi E"
    by (simp add: f32_round_def Let_def E_def)
  also have "\<dots> = ?x" by (simp add: k power_int_add)
  finally show ?thesis .
qed

lemma f32_round_of_int: "\<bar>m\<bar> < 2 ^ 24 \<Longrightarrow> f32_round (of_int m) = of_int m"
  using f32_round_exact [of 0 m] by simp

lemma f32_round_mono:
  assumes x: "0 \<le> x" and xy: "x \<le> y"
  shows "f32_round x \<le> f32_round y"
proof -
  define ex where "ex = f32_exp_from (- 149) x"
  define ey where "ey = f32_exp_from (- 149) y"
  have rx: "f32_round x = of_int (rne (x / 2 powi ex)) * 2 powi ex"
    using x by (simp add: f32_round_def Let_def ex_def)
  have ry: "f32_round y = of_int (rne (y / 2 powi ey)) * 2 powi ey"
    using x xy by (simp add: f32_round_def Let_def ey_def)
  have le: "ex \<le> ey" unfolding ex_def ey_def using xy by (rule f32_exp_from_mono)
  show ?thesis
  proof (cases "ex = ey")
    case True
    have "x / 2 powi ey \<le> y / 2 powi ey" using xy by (simp add: divide_right_mono)
    then have "rne (x / 2 powi ey) \<le> rne (y / 2 powi ey)" by (rule rne_mono)
    then have "(of_int (rne (x / 2 powi ey)) :: rat) \<le> of_int (rne (y / 2 powi ey))"
      by (simp only: of_int_le_iff)
    then show ?thesis unfolding rx ry True
      by (intro mult_right_mono) simp_all
  next
    case False
    with le have lt: "ex + 1 \<le> ey" by simp
    have "- 149 \<le> ex" unfolding ex_def by (rule f32_exp_from_ge)
    with lt have "- 149 < ey" by simp
    then have ylow: "2 powi (ey + 23) \<le> y" unfolding ey_def by (rule f32_exp_from_lower)
    have xup: "x < 2 powi (ex + 24)" unfolding ex_def by (rule f32_exp_from_upper)
    have "x / 2 powi ex \<le> of_int (2 ^ 24)"
      using xup by (simp add: power_int_add divide_simps mult.commute)
    then have "rne (x / 2 powi ex) \<le> rne (of_int (2 ^ 24))" by (rule rne_mono)
    then have "rne (x / 2 powi ex) \<le> 2 ^ 24" by (simp only: rne_of_int)
    then have "(of_int (rne (x / 2 powi ex)) :: rat) \<le> of_int (2 ^ 24)" by (simp only: of_int_le_iff)
    then have "f32_round x \<le> of_int (2 ^ 24) * 2 powi ex"
      unfolding rx by (intro mult_right_mono) simp_all
    also have "\<dots> = 2 powi (ex + 24)" by (simp add: power_int_add)
    also have "\<dots> \<le> 2 powi (ey + 23)" using lt by (intro power_int_increasing) simp_all
    also have "\<dots> = of_int (2 ^ 23) * 2 powi ey" by (simp add: power_int_add)
    also have "\<dots> \<le> f32_round y"
    proof -
      have "of_int (2 ^ 23) \<le> y / 2 powi ey"
        using ylow by (simp add: power_int_add divide_simps mult.commute)
      then have "rne (of_int (2 ^ 23)) \<le> rne (y / 2 powi ey)" by (rule rne_mono)
      then have "2 ^ 23 \<le> rne (y / 2 powi ey)" by (simp only: rne_of_int)
      then have "(of_int (2 ^ 23) :: rat) \<le> of_int (rne (y / 2 powi ey))" by (simp only: of_int_le_iff)
      then show ?thesis unfolding ry by (intro mult_right_mono) simp_all
    qed
    finally show ?thesis .
  qed
qed

lemma f32_round_0: "f32_round 0 = 0"
  using f32_round_of_int [of 0] by simp

lemma f32_round_1: "f32_round 1 = 1"
  using f32_round_of_int [of 1] by simp

lemma f32_round_4095: "f32_round 4095 = 4095"
  using f32_round_of_int [of 4095] by simp

lemma fraction_of_FFF_bounded:
  assumes n0: "0 \<le> sint num" and nd: "sint num \<le> sint den" and d1: "1 \<le> sint den"
  shows "\<exists>w. fraction_of_FFF num den = Some w \<and> w \<le> 0xFFF"
proof -
  define nf where "nf = f32_of_long num"
  define df where "df = f32_of_long den"
  define q where "q = f32_round (nf / df)"
  define out where "out = f32_round (4095 * q)"
  have rn0: "(0 :: rat) \<le> of_int (sint num)" using n0 by (simp only: of_int_0_le_iff)
  have rnd: "(of_int (sint num) :: rat) \<le> of_int (sint den)" using nd by (simp only: of_int_le_iff)
  have rd1: "(1 :: rat) \<le> of_int (sint den)" using d1 by (simp only: of_int_1_le_iff)
  have nf0: "0 \<le> nf" unfolding nf_def f32_of_long_def using rn0 by (rule f32_round_nonneg)
  have "f32_round 1 \<le> df" unfolding df_def f32_of_long_def using _ rd1
    by (rule f32_round_mono) simp
  then have df1: "1 \<le> df" by (simp add: f32_round_1)
  have nfdf: "nf \<le> df" unfolding nf_def df_def f32_of_long_def using rn0 rnd
    by (rule f32_round_mono)
  have r0: "0 \<le> nf / df" using nf0 df1 by simp
  have r1: "nf / df \<le> 1" using nfdf df1 by simp
  have q0: "0 \<le> q" unfolding q_def using r0 by (rule f32_round_nonneg)
  have "q \<le> f32_round 1" unfolding q_def using r0 r1 by (rule f32_round_mono)
  then have q1: "q \<le> 1" by (simp add: f32_round_1)
  have o0: "0 \<le> out" unfolding out_def using q0 by (intro f32_round_nonneg) simp
  have "out \<le> f32_round 4095" unfolding out_def using q0 q1 by (intro f32_round_mono) simp_all
  then have o1: "out \<le> 4095" by (simp add: f32_round_4095)
  have fl0: "0 \<le> \<lfloor>out\<rfloor>" using o0 by simp
  have fl1: "\<lfloor>out\<rfloor> \<le> 4095" using o1 by (simp add: floor_le_iff)
  have eq: "fraction_of_FFF num den = Some (word_of_int \<lfloor>out\<rfloor>)"
    using df1 o0 o1
    by (simp add: fraction_of_FFF_def Let_def f32_to_uint16_def nf_def [symmetric]
        df_def [symmetric] q_def [symmetric] out_def [symmetric])
  have "(word_of_int \<lfloor>out\<rfloor> :: 16 word) \<le> 0xFFF"
    using fl0 fl1 by (simp add: word_le_def uint_word_of_int take_bit_int_eq_self)
  with eq show ?thesis by simp
qed

section \<open>Range of the waveform values\<close>

lemma sint_long_range: "- (2 ^ 31) \<le> sint (w :: long) \<and> sint w < 2 ^ 31"
  using sint_ge [of w] sint_lt [of w] by simp

lemma sint_shift_right_1: "sint (signed_drop_bit 1 (p :: long)) = sint p div 2"
  by (simp add: sint_signed_drop_bit_eq drop_bit_eq_div)

lemma sint_shift_left_1:
  assumes "0 \<le> sint (c :: long)" and "2 * sint c < 2 ^ 31"
  shows "sint (push_bit 1 c) = 2 * sint c"
proof -
  have "push_bit 1 c = c + c"
    by (simp only: push_bit_eq_mult power_one_right mult_2_right)
  then have "sint (push_bit 1 c) = sint (c + c)" by (rule arg_cong)
  also have "\<dots> = signed_take_bit (LENGTH(32) - 1) (sint c + sint c)"
    by (rule sint_word_ariths)
  also have "\<dots> = sint c + sint c"
    using assms by (intro signed_take_bit_int_eq_self) simp_all
  finally show ?thesis by linarith
qed

lemma sint_long_minus:
  assumes "0 \<le> sint (c :: long)" and "sint c \<le> sint (p :: long)"
  shows "sint (p - c) = sint p - sint c"
proof -
  have "sint (p - c) = signed_take_bit (LENGTH(32) - 1) (sint p - sint c)"
    by (rule sint_word_ariths)
  moreover have "signed_take_bit 31 (sint p - sint c) = sint p - sint c"
    using assms sint_long_range [of p] by (intro signed_take_bit_int_eq_self) simp_all
  ultimately show ?thesis by simp
qed

lemma drop_bit_2_bounded:
  assumes "(w :: 16 word) \<le> 0xFFF"
  shows "drop_bit 2 w \<le> 0x3FF"
proof -
  from assms have "unat w \<le> 4095" by (simp add: word_le_nat_alt)
  then have "unat w div 4 \<le> 1023" by simp
  then show ?thesis by (simp add: word_le_nat_alt unat_drop_bit_eq drop_bit_eq_div unat_div)
qed

lemma ramp_bounded:
  assumes "0 \<le> sint num" and "sint num \<le> sint den" and "1 \<le> sint den"
  shows "\<exists>a. map_option (drop_bit 2) (fraction_of_FFF num den) = Some a \<and> a \<le> 0x3FF"
proof -
  from fraction_of_FFF_bounded [OF assms]
  obtain w where "fraction_of_FFF num den = Some w" and "w \<le> 0xFFF" by blast
  then show ?thesis by (simp add: drop_bit_2_bounded)
qed

lemma evaluate_bounded:
  assumes p1: "1 \<le> sint period" and c0: "0 \<le> sint counter" and cp: "sint counter \<le> sint period"
  shows "\<exists>a. evaluate ty counter period = Some a \<and> a \<le> 0x3FF"
proof (cases ty)
  case SQUARE
  then show ?thesis by (simp add: evaluate_def)
next
  case SAW
  with ramp_bounded [OF c0 cp p1] show ?thesis by (simp add: evaluate_def)
next
  case TRI
  show ?thesis
  proof (cases "counter \<le>s signed_drop_bit 1 period")
    case True
    then have half: "sint counter \<le> sint period div 2"
      unfolding word_sle_eq sint_shift_right_1 .
    then have le: "2 * sint counter \<le> sint period" by linarith
    with sint_long_range [of period] have "2 * sint counter < 2 ^ 31" by linarith
    with c0 have sh: "sint (push_bit 1 counter) = 2 * sint counter" by (rule sint_shift_left_1)
    have "0 \<le> sint (push_bit 1 counter)" "sint (push_bit 1 counter) \<le> sint period"
      unfolding sh using c0 le by linarith+
    from ramp_bounded [OF this p1] TRI True show ?thesis by (simp add: evaluate_def)
  next
    case False
    then have gt: "sint period div 2 < sint counter"
      unfolding word_sle_eq sint_shift_right_1 by simp
    then have lt: "signed_drop_bit 1 period <s counter"
      unfolding word_sless_alt sint_shift_right_1 .
    have d: "sint (period - counter) = sint period - sint counter"
      using c0 cp by (rule sint_long_minus)
    have d0: "0 \<le> sint (period - counter)" using cp by (simp add: d)
    have le: "2 * sint (period - counter) \<le> sint period" unfolding d using gt by presburger
    with sint_long_range [of period] have "2 * sint (period - counter) < 2 ^ 31" by linarith
    with d0 have sh: "sint (push_bit 1 (period - counter)) = 2 * sint (period - counter)"
      by (rule sint_shift_left_1)
    have "0 \<le> sint (push_bit 1 (period - counter))"
      "sint (push_bit 1 (period - counter)) \<le> sint period"
      unfolding sh using d0 le by linarith+
    from ramp_bounded [OF this p1] TRI False lt show ?thesis by (simp add: evaluate_def)
  qed
qed

text \<open>
  Claim C5. For each of the three waveforms, every period \<open>\<ge> 1\<close> and every counter between
  \<open>0\<close> and the period, the amount an enabled voice adds to \<^verbatim>\<open>sample_buffer\<close> is defined and
  lies between \<open>0\<close> and \<open>0x3FF\<close>.
\<close>

theorem evaluate_range:
  assumes "1 \<le> sint period" and "0 \<le> sint counter" and "sint counter \<le> sint period"
  shows "\<exists>a. evaluate ty counter period = Some a \<and> 0 \<le> uint a \<and> uint a \<le> 0x3FF"
  using evaluate_bounded [OF assms, of ty] by (auto simp: word_le_def)

theorem evaluate_range_witness:
  "1 \<le> sint (4 :: long) \<and> 0 \<le> sint (1 :: long) \<and> sint (1 :: long) \<le> sint (4 :: long) \<and>
   (\<exists>a. evaluate TRI 1 4 = Some a \<and> 0 \<le> uint a \<and> uint a \<le> 0x3FF)"
  using evaluate_range [of 4 1 TRI] by simp

section \<open>The sample computation\<close>

lemma sample_calc_voice_Some:
  assumes "sample_calc_voice j s = Some s'"
  shows "active_voices s' = (active_voices s)(j := voice_tick (active_voices s j))"
    and "voice_sample (active_voices s j) = Some (sample_buffer s')"
    and "full_queue_flag s' = full_queue_flag s"
    and "sampleQueue s' = sampleQueue s"
    and "messageQueue s' = messageQueue s"
    and "spi_sent s' = spi_sent s"
  using assms
  by (auto simp: sample_calc_voice_def Let_def voice_tick_def voice_sample_def
      split: if_splits option.splits)

lemma sample_calc_voice_defined:
  assumes "voice_sample (active_voices s j) \<noteq> None"
  shows "sample_calc_voice j s \<noteq> None"
  using assms
  by (auto simp: sample_calc_voice_def Let_def voice_sample_def split: if_splits option.splits)

lemma sample_calc_loop_voices:
  "sample_calc_loop j s = Some s' \<Longrightarrow>
   active_voices s' i =
     (if j \<le> i \<and> i < 4 then voice_tick (active_voices s i) else active_voices s i)"
proof (induction j s arbitrary: s' rule: sample_calc_loop.induct)
  case (1 j s)
  show ?case
  proof (cases "j < 4")
    case False
    with 1(2) show ?thesis by (auto simp: sample_calc_loop.simps [of j s])
  next
    case True
    with 1(2) obtain s1 where s1: "sample_calc_voice j s = Some s1"
      and rest: "sample_calc_loop (j + 1) s1 = Some s'"
      by (auto simp: sample_calc_loop.simps [of j s] split: option.splits)
    from 1(1) [OF True s1 rest] sample_calc_voice_Some(1) [OF s1] True
    show ?thesis by auto
  qed
qed

lemma sample_calc_loop_rest:
  "sample_calc_loop j s = Some s' \<Longrightarrow>
   full_queue_flag s' = full_queue_flag s \<and> sampleQueue s' = sampleQueue s \<and>
   messageQueue s' = messageQueue s \<and> spi_sent s' = spi_sent s"
proof (induction j s arbitrary: s' rule: sample_calc_loop.induct)
  case (1 j s)
  show ?case
  proof (cases "j < 4")
    case False
    with 1(2) show ?thesis by (simp add: sample_calc_loop.simps [of j s])
  next
    case True
    with 1(2) obtain s1 where s1: "sample_calc_voice j s = Some s1"
      and rest: "sample_calc_loop (j + 1) s1 = Some s'"
      by (auto simp: sample_calc_loop.simps [of j s] split: option.splits)
    from 1(1) [OF True s1 rest] sample_calc_voice_Some(3-6) [OF s1]
    show ?thesis by simp
  qed
qed

lemma sample_calc_loop_buffer:
  "sample_calc_loop j s = Some s' \<Longrightarrow> j < 4 \<Longrightarrow>
   voice_sample (active_voices s 3) = Some (sample_buffer s')"
proof (induction j s arbitrary: s' rule: sample_calc_loop.induct)
  case (1 j s)
  from 1(2,3) obtain s1 where s1: "sample_calc_voice j s = Some s1"
    and rest: "sample_calc_loop (j + 1) s1 = Some s'"
    by (auto simp: sample_calc_loop.simps [of j s] split: option.splits)
  show ?case
  proof (cases "j = 3")
    case True
    with rest have "s' = s1" by (simp add: sample_calc_loop.simps [of 4 s1])
    with sample_calc_voice_Some(2) [OF s1] True show ?thesis by simp
  next
    case False
    with 1(3) have "j + 1 < 4" by simp
    from 1(1) [OF 1(3) s1 rest this] sample_calc_voice_Some(1) [OF s1] False
    show ?thesis by simp
  qed
qed

lemma sample_calc_loop_defined:
  "\<forall>i. j \<le> i \<and> i < 4 \<longrightarrow> voice_sample (active_voices s i) \<noteq> None \<Longrightarrow>
   sample_calc_loop j s \<noteq> None"
proof (induction j s rule: sample_calc_loop.induct)
  case (1 j s)
  show ?case
  proof (cases "j < 4")
    case False
    then show ?thesis by (simp add: sample_calc_loop.simps [of j s])
  next
    case True
    with 1(2) have "voice_sample (active_voices s j) \<noteq> None" by simp
    then obtain s1 where s1: "sample_calc_voice j s = Some s1"
      using sample_calc_voice_defined by blast
    have "\<forall>i. j + 1 \<le> i \<and> i < 4 \<longrightarrow> voice_sample (active_voices s1 i) \<noteq> None"
      using 1(2) sample_calc_voice_Some(1) [OF s1] by simp
    from 1(1) [OF True s1 this] True s1 show ?thesis
      by (simp add: sample_calc_loop.simps [of j s])
  qed
qed

lemma sample_calc_voices:
  "sample_calc s = Some s' \<Longrightarrow>
   active_voices s' i = (if i < 4 then voice_tick (active_voices s i) else active_voices s i)"
  unfolding sample_calc_def by (drule sample_calc_loop_voices [where i = i]) simp

lemma sample_calc_buffer:
  "sample_calc s = Some s' \<Longrightarrow> voice_sample (active_voices s 3) = Some (sample_buffer s')"
  using sample_calc_loop_buffer [of 0 s s'] by (simp add: sample_calc_def)

lemma sample_calc_rest:
  "sample_calc s = Some s' \<Longrightarrow>
   full_queue_flag s' = full_queue_flag s \<and> sampleQueue s' = sampleQueue s \<and>
   messageQueue s' = messageQueue s \<and> spi_sent s' = spi_sent s"
  unfolding sample_calc_def by (rule sample_calc_loop_rest)

lemma sample_calc_defined:
  "\<forall>i < 4. voice_sample (active_voices s i) \<noteq> None \<Longrightarrow> sample_calc s \<noteq> None"
  unfolding sample_calc_def by (rule sample_calc_loop_defined) simp

section \<open>The phase counter\<close>

lemma voice_tick_fields:
  "v_enable (voice_tick v) = v_enable v" "v_type (voice_tick v) = v_type v"
  "v_period (voice_tick v) = v_period v"
  by (simp_all add: voice_tick_def)

lemma voice_tick_disabled: "\<not> v_enable v \<Longrightarrow> voice_tick v = v"
  by (simp add: voice_tick_def)

lemma voice_tick_counter:
  assumes en: "v_enable v" and c0: "0 \<le> sint (v_counter v)"
    and cp: "sint (v_counter v) \<le> sint (v_period v)"
  shows "sint (v_counter (voice_tick v)) = (sint (v_counter v) + 1) mod (sint (v_period v) + 1)"
proof (cases "v_counter v <s v_period v")
  case True
  then have lt: "sint (v_counter v) < sint (v_period v)" by (simp add: word_sless_alt)
  have "sint (v_counter v + 1) = signed_take_bit (LENGTH(32) - 1) (sint (v_counter v) + sint (1 :: long))"
    by (rule sint_word_ariths)
  moreover have "signed_take_bit 31 (sint (v_counter v) + 1) = sint (v_counter v) + 1"
    using c0 lt sint_long_range [of "v_period v"] by (intro signed_take_bit_int_eq_self) simp_all
  ultimately have "sint (v_counter v + 1) = sint (v_counter v) + 1" by simp
  with True en c0 lt show ?thesis by (simp add: voice_tick_def)
next
  case False
  then have "sint (v_counter v) = sint (v_period v)" using cp by (simp add: word_sless_alt)
  with False en show ?thesis by (simp add: voice_tick_def)
qed

lemma mod_succ_bounds: "0 \<le> (p :: int) \<Longrightarrow> 0 \<le> a mod (p + 1) \<and> a mod (p + 1) \<le> p"
  using pos_mod_sign [of "p + 1" a] pos_mod_bound [of "p + 1" a] by linarith

lemma voice_tick_ok: "voice_ok v \<Longrightarrow> voice_ok (voice_tick v)"
proof (cases "v_enable v")
  case False
  assume "voice_ok v"
  with False show ?thesis by (simp add: voice_tick_disabled)
next
  case True
  assume ok: "voice_ok v"
  then have "sint (v_counter (voice_tick v)) = (sint (v_counter v) + 1) mod (sint (v_period v) + 1)"
    using True by (intro voice_tick_counter) (simp_all add: voice_ok_def)
  moreover have "0 \<le> (sint (v_counter v) + 1) mod (sint (v_period v) + 1) \<and>
    (sint (v_counter v) + 1) mod (sint (v_period v) + 1) \<le> sint (v_period v)"
    using ok by (intro mod_succ_bounds) (simp add: voice_ok_def)
  ultimately show ?thesis using ok by (simp add: voice_ok_def voice_tick_fields)
qed

lemma voice_ok_sample: "v_enable v \<longrightarrow> voice_ok v \<Longrightarrow> voice_sample v \<noteq> None"
  using evaluate_bounded [of "v_period v" "v_counter v" "v_type v"]
  by (auto simp: voice_ok_def voice_sample_def)

lemma bank_ok_sample_calc:
  assumes "bank_ok s" and "sample_calc s = Some s'"
  shows "bank_ok s'"
  using assms(1) sample_calc_voices [OF assms(2)]
  by (simp add: bank_ok_def voice_tick_ok voice_tick_fields)

lemma sample_calc_n_counter:
  assumes "j < 4" and "v_enable (active_voices s j)"
    and "0 \<le> sint (v_counter (active_voices s j))"
    and "sint (v_counter (active_voices s j)) \<le> sint (v_period (active_voices s j))"
    and "sample_calc_n n s = Some s'"
  shows "v_enable (active_voices s' j) \<and>
    v_period (active_voices s' j) = v_period (active_voices s j) \<and>
    sint (v_counter (active_voices s' j)) =
      (sint (v_counter (active_voices s j)) + int n) mod (sint (v_period (active_voices s j)) + 1)"
  using assms
proof (induction n arbitrary: s)
  case 0
  then show ?case by simp
next
  case (Suc n)
  from Suc.prems(5) obtain s1 where s1: "sample_calc s = Some s1"
    and rest: "sample_calc_n n s1 = Some s'"
    by (auto split: option.splits)
  let ?v = "active_voices s j"
  have v1: "active_voices s1 j = voice_tick ?v"
    using sample_calc_voices [OF s1, of j] Suc.prems(1) by simp
  have c1: "sint (v_counter (voice_tick ?v)) = (sint (v_counter ?v) + 1) mod (sint (v_period ?v) + 1)"
    using Suc.prems(2-4) by (rule voice_tick_counter)
  have b: "0 \<le> (sint (v_counter ?v) + 1) mod (sint (v_period ?v) + 1) \<and>
    (sint (v_counter ?v) + 1) mod (sint (v_period ?v) + 1) \<le> sint (v_period ?v)"
    using Suc.prems(3,4) by (intro mod_succ_bounds) simp
  have "v_enable (active_voices s' j) \<and>
    v_period (active_voices s' j) = v_period (active_voices s1 j) \<and>
    sint (v_counter (active_voices s' j)) =
      (sint (v_counter (active_voices s1 j)) + int n) mod (sint (v_period (active_voices s1 j)) + 1)"
    using Suc.prems(1,2) b rest
    by (intro Suc.IH) (simp_all add: v1 voice_tick_fields c1)
  then show ?case
    by (simp add: v1 voice_tick_fields c1 mod_add_left_eq add.assoc)
qed

lemma sample_calc_n_defined:
  "bank_ok s \<Longrightarrow> \<exists>s'. sample_calc_n n s = Some s'"
proof (induction n arbitrary: s)
  case 0
  show ?case by simp
next
  case (Suc n)
  then have "\<forall>i < 4. voice_sample (active_voices s i) \<noteq> None"
    by (simp add: bank_ok_def voice_ok_sample)
  then obtain s1 where s1: "sample_calc s = Some s1"
    using sample_calc_defined by blast
  from Suc.IH [OF bank_ok_sample_calc [OF Suc.prems s1]] s1 show ?case by simp
qed

text \<open>
  Claim C4. Take an enabled voice \<open>j\<close> with period \<open>P \<ge> 1\<close> and counter \<open>c\<close> between \<open>0\<close> and
  \<open>P\<close>. After any \<open>n\<close> calls of \<^verbatim>\<open>sample_calc\<close> the voice is still enabled with period \<open>P\<close>,
  its counter is again between \<open>0\<close> and \<open>P\<close>, and it equals \<open>(c + n) mod (P + 1)\<close>: one call
  takes \<open>c < P\<close> to \<open>c + 1\<close> and \<open>c = P\<close> to \<open>0\<close>, so from \<open>0\<close> the counter is \<open>0\<close> again
  after \<open>P + 1\<close> calls and not earlier. The calls all return when every enabled voice
  satisfies the same condition.
\<close>

theorem counter_cycle:
  assumes "j < 4" and "v_enable (active_voices s j)" and "voice_ok (active_voices s j)"
  shows "(\<forall>s'. sample_calc_n n s = Some s' \<longrightarrow>
            v_enable (active_voices s' j) \<and>
            v_period (active_voices s' j) = v_period (active_voices s j) \<and>
            0 \<le> sint (v_counter (active_voices s' j)) \<and>
            sint (v_counter (active_voices s' j)) \<le> sint (v_period (active_voices s j)) \<and>
            sint (v_counter (active_voices s' j)) =
              (sint (v_counter (active_voices s j)) + int n)
                mod (sint (v_period (active_voices s j)) + 1)) \<and>
         (bank_ok s \<longrightarrow> (\<exists>s'. sample_calc_n n s = Some s'))"
proof (intro conjI allI impI)
  fix s'
  assume run: "sample_calc_n n s = Some s'"
  let ?v = "active_voices s j"
  from assms(3) have c0: "0 \<le> sint (v_counter ?v)" and cp: "sint (v_counter ?v) \<le> sint (v_period ?v)"
    by (simp_all add: voice_ok_def)
  note r = sample_calc_n_counter [OF assms(1,2) c0 cp run]
  from c0 cp have p0: "0 \<le> sint (v_period ?v)" by linarith
  note b = mod_succ_bounds [OF p0, of "sint (v_counter ?v) + int n"]
  from r show "v_enable (active_voices s' j)" by simp
  from r show "v_period (active_voices s' j) = v_period ?v" by simp
  from r show "sint (v_counter (active_voices s' j)) =
    (sint (v_counter ?v) + int n) mod (sint (v_period ?v) + 1)" by simp
  from r b show "0 \<le> sint (v_counter (active_voices s' j))" by simp
  from r b show "sint (v_counter (active_voices s' j)) \<le> sint (v_period ?v)" by simp
next
  assume "bank_ok s"
  then show "\<exists>s'. sample_calc_n n s = Some s'" by (rule sample_calc_n_defined)
qed

lemma single_voice_bank_ok: "bank_ok (single_voice TRI 0 4)"
  by (simp add: bank_ok_def single_voice_def synth_init_def voice_off_def voice_ok_def)

theorem counter_cycle_witness:
  "\<exists>s'. sample_calc_n 5 (single_voice TRI 0 4) = Some s' \<and>
     v_enable (active_voices s' 0) \<and> v_period (active_voices s' 0) = 4 \<and>
     sint (v_counter (active_voices s' 0)) = 0"
proof -
  have j: "(0 :: nat) < 4" by simp
  have en: "v_enable (active_voices (single_voice TRI 0 4) 0)"
    by (simp add: single_voice_def)
  have ok: "voice_ok (active_voices (single_voice TRI 0 4) 0)"
    by (simp add: single_voice_def voice_ok_def)
  from counter_cycle [OF j en ok, of 5] single_voice_bank_ok
  show ?thesis by (auto simp: single_voice_def)
qed

section \<open>What one call of \<^verbatim>\<open>sample_calc\<close> changes\<close>

text \<open>
  Claim C10. One call of \<^verbatim>\<open>sample_calc\<close> leaves \<^verbatim>\<open>v_enable\<close>, \<^verbatim>\<open>v_type\<close> and \<^verbatim>\<open>v_period\<close> of
  every voice as they were, and leaves a disabled voice unchanged in every field, its
  counter included: of the voice array only the counters of enabled voices are written.
\<close>

theorem sample_calc_frame:
  assumes "sample_calc s = Some s'"
  shows "v_enable (active_voices s' i) = v_enable (active_voices s i) \<and>
         v_type (active_voices s' i) = v_type (active_voices s i) \<and>
         v_period (active_voices s' i) = v_period (active_voices s i) \<and>
         (\<not> v_enable (active_voices s i) \<longrightarrow> active_voices s' i = active_voices s i)"
  using sample_calc_voices [OF assms, of i]
  by (simp add: voice_tick_fields voice_tick_disabled)

theorem sample_calc_frame_witness:
  "\<exists>s'. sample_calc (single_voice TRI 0 4) = Some s' \<and>
     v_enable (active_voices s' 0) \<and> v_type (active_voices s' 0) = TRI \<and>
     v_period (active_voices s' 0) = 4 \<and>
     active_voices s' 1 = voice_off"
proof -
  from sample_calc_n_defined [OF single_voice_bank_ok, of 1]
  obtain s' where s': "sample_calc (single_voice TRI 0 4) = Some s'"
    by (auto split: option.splits)
  from sample_calc_frame [OF s', of 0] sample_calc_frame [OF s', of 1] s'
  show ?thesis by (simp add: single_voice_def synth_init_def voice_off_def)
qed

section \<open>Values at concrete inputs\<close>

lemma f32_round_numeral:
  "(numeral k :: int) < 2 ^ 24 \<Longrightarrow> f32_round (numeral k) = numeral k"
  using f32_round_of_int [of "numeral k"] by simp

lemma f32_round_half_numeral:
  "(numeral k :: int) < 2 ^ 24 \<Longrightarrow> f32_round (numeral k / 2) = numeral k / 2"
  using f32_round_exact [of "- 1" "numeral k"] by simp

lemma f32_round_half: "f32_round (1 / 2) = 1 / 2"
  using f32_round_exact [of "- 1" 1] by simp

lemmas f32_values = f32_round_0 f32_round_1 f32_round_numeral f32_round_half_numeral f32_round_half

lemma fraction_of_FFF_0_4: "fraction_of_FFF 0 4 = Some 0"
  by (simp add: fraction_of_FFF_def f32_of_long_def f32_to_uint16_def f32_values)

lemma fraction_of_FFF_2_4: "fraction_of_FFF 2 4 = Some 2047"
proof -
  have "\<lfloor>4095 / 2 :: rat\<rfloor> = 2047" by (simp add: floor_eq_iff)
  then show ?thesis
    by (simp add: fraction_of_FFF_def f32_of_long_def f32_to_uint16_def f32_values)
qed

lemma fraction_of_FFF_4_4: "fraction_of_FFF 4 4 = Some 4095"
  by (simp add: fraction_of_FFF_def f32_of_long_def f32_to_uint16_def f32_values)

lemma evaluate_TRI_4:
  "evaluate TRI 0 4 = Some 0" "evaluate TRI 1 4 = Some 511" "evaluate TRI 2 4 = Some 1023"
  "evaluate TRI 3 4 = Some 511" "evaluate TRI 4 4 = Some 0"
  by (simp_all add: evaluate_def word_sle_eq word_sless_alt
      fraction_of_FFF_0_4 fraction_of_FFF_2_4 fraction_of_FFF_4_4)

section \<open>The composite sample\<close>

lemma evaluate_SQUARE_0_4: "evaluate SQUARE 0 4 = Some 0x3FF"
  by (simp add: evaluate_def long_div_def word_sle_eq signed_divide_int_def)

lemma single_voice_bank_ok_SQUARE: "bank_ok (single_voice SQUARE 0 4)"
  by (simp add: bank_ok_def single_voice_def synth_init_def voice_off_def voice_ok_def)

text \<open>
  Claim C1. The claim is that one call of \<^verbatim>\<open>sample_calc\<close> leaves in \<^verbatim>\<open>sample_buffer\<close> the sum of
  the values of all enabled voices. \<^verbatim>\<open>sample_calc\<close> clears \<^verbatim>\<open>sample_buffer\<close> at the start of
  every pass of its loop, so what is left is the value of voice \<open>3\<close> alone (lemma
  \<open>sample_calc_buffer\<close>). With voice \<open>0\<close> the only enabled voice, a square wave at counter
  \<open>0\<close> and period \<open>4\<close>, the call leaves \<open>0\<close> where the sum is \<open>0x3FF\<close>.
\<close>

theorem sample_calc_keeps_last_voice_only:
  "\<exists>s'. sample_calc (single_voice SQUARE 0 4) = Some s' \<and> sample_buffer s' = 0 \<and>
     spec_compute (single_voice SQUARE 0 4) = Some 0x3FF"
proof -
  from sample_calc_n_defined [OF single_voice_bank_ok_SQUARE, of 1]
  obtain s' where s': "sample_calc (single_voice SQUARE 0 4) = Some s'"
    by (auto split: option.splits)
  from sample_calc_buffer [OF s'] have "sample_buffer s' = 0"
    by (simp add: single_voice_def synth_init_def voice_off_def voice_sample_def)
  moreover have "spec_compute (single_voice SQUARE 0 4) = Some 0x3FF"
    by (simp add: spec_compute_def single_voice_def synth_init_def voice_off_def
        voice_sample_def evaluate_SQUARE_0_4)
  ultimately show ?thesis using s' by simp
qed

section \<open>A triangle voice of period four\<close>

lemma single_voice_TRI_counter:
  "map_option (\<lambda>s. sint (v_counter (active_voices s 0))) (sample_calc_n n (single_voice TRI 0 4))
     = Some (int n mod 5)"
proof -
  from sample_calc_n_defined [OF single_voice_bank_ok, of n]
  obtain s' where s': "sample_calc_n n (single_voice TRI 0 4) = Some s'" by blast
  have "(0 :: nat) < 4" by simp
  from sample_calc_n_counter [OF this _ _ _ s'] s' show ?thesis
    by (simp add: single_voice_def)
qed

text \<open>
  Claim C2, as stated, gives the values \<open>0, 127, 1023, 127, 0\<close> for a triangle voice of period
  \<open>4\<close> at the counters \<open>0\<close> to \<open>4\<close>. At the counter \<open>1\<close> the code computes
  \<^verbatim>\<open>fraction_of_FFF(2, 4)\<close>, which is \<open>2047\<close> (the product \<open>2047.5\<close> with its fraction
  discarded), and shifts it right by two: \<open>511\<close>, not \<open>127\<close>.
\<close>

theorem evaluate_TRI_1_4_counterexample:
  "evaluate TRI 1 4 = Some 511 \<and> evaluate TRI 1 4 \<noteq> Some 127"
  by (simp add: evaluate_TRI_4)

text \<open>
  Claim C2, amended. For voice \<open>0\<close> enabled with the triangle waveform, counter \<open>0\<close> and
  period \<open>4\<close>, the counter before the first call of \<^verbatim>\<open>sample_calc\<close> and after each of the
  next six is \<open>0, 1, 2, 3, 4, 0, 1\<close>, and the values of the waveform at the counters \<open>0\<close> to
  \<open>4\<close> are \<open>0, 511, 1023, 511, 0\<close>.
\<close>

theorem triangle_period_4:
  "map (\<lambda>n. map_option (\<lambda>s. sint (v_counter (active_voices s 0)))
           (sample_calc_n n (single_voice TRI 0 4))) [0, 1, 2, 3, 4, 5, 6]
     = [Some 0, Some 1, Some 2, Some 3, Some 4, Some 0, Some 1] \<and>
   map (\<lambda>c. evaluate TRI c 4) [0, 1, 2, 3, 4]
     = [Some 0, Some 511, Some 1023, Some 511, Some 0]"
  by (simp add: single_voice_TRI_counter evaluate_TRI_4)

section \<open>The word sent to the converter\<close>

text \<open>
  Claim C9. For every 16-bit input the two bytes written to the SPI peripheral are the
  high byte and then the low byte of \<open>(input AND 0xFFF) OR 0x3000\<close>: read most significant
  byte first, they are that word.
\<close>

theorem write_to_MCP4821_word:
  "write_to_MCP4821 s =
     [ucast (drop_bit 8 ((s AND 0xFFF) OR 0x3000)), ucast ((s AND 0xFFF) OR 0x3000)] \<and>
   word_cat (write_to_MCP4821 s ! 0) (write_to_MCP4821 s ! 1) = (s AND 0xFFF) OR (0x3000 :: 16 word)"
proof -
  have cat: "word_cat (ucast (drop_bit 8 w) :: 8 word) (ucast w :: 8 word) = w" for w :: "16 word"
    by (rule bit_word_eqI) (auto simp: bit_word_cat_iff bit_ucast_iff bit_drop_bit_eq)
  define w where "w = (s AND 0xFFF) OR (0x3000 :: 16 word)"
  have bytes: "write_to_MCP4821 s = [ucast (drop_bit 8 w), ucast w]"
    by (simp add: write_to_MCP4821_def u16_to_u8_def DAC_CMD_MASK_def Let_def w_def)
  show ?thesis unfolding w_def [symmetric]
    by (simp add: bytes cat)
qed

section \<open>The output task\<close>

text \<open>
  Claim C7. One pass of the loop of \<^verbatim>\<open>vPeriodicSPITask\<close> makes one receive call without
  waiting. With an empty queue the state is unchanged: nothing is written to the SPI
  peripheral. Otherwise the oldest sample leaves the queue and its two bytes are what is
  written.
\<close>

theorem vPeriodicSPITask_step_cases:
  "(sampleQueue s = [] \<longrightarrow> vPeriodicSPITask_step s = s) \<and>
   (\<forall>x q. sampleQueue s = x # q \<longrightarrow>
      vPeriodicSPITask_step s =
        s\<lparr>sampleQueue := q, spi_sent := spi_sent s @ [write_to_MCP4821 x]\<rparr>)"
  by (simp add: vPeriodicSPITask_step_def xQueueReceive_def)

theorem vPeriodicSPITask_step_cases_witness:
  "sampleQueue synth_init = [] \<and> vPeriodicSPITask_step synth_init = synth_init \<and>
   sampleQueue (synth_init\<lparr>sampleQueue := [0x1FF, 0x3FF]\<rparr>) = [0x1FF, 0x3FF] \<and>
   vPeriodicSPITask_step (synth_init\<lparr>sampleQueue := [0x1FF, 0x3FF]\<rparr>) =
     synth_init\<lparr>sampleQueue := [0x3FF], spi_sent := [[0x31, 0xFF]]\<rparr>"
  using vPeriodicSPITask_step_cases [of synth_init]
    vPeriodicSPITask_step_cases [of "synth_init\<lparr>sampleQueue := [0x1FF, 0x3FF]\<rparr>"]
  by (simp add: synth_init_def write_to_MCP4821_def u16_to_u8_def DAC_CMD_MASK_def)

section \<open>The interpreter task\<close>

lemma vMIDIInterpreter_step_voices: "active_voices (vMIDIInterpreter_step s) = active_voices s"
  by (simp add: vMIDIInterpreter_step_def xQueueReceive_def split: list.splits)

lemma vMIDIInterpreter_n_voices: "active_voices (vMIDIInterpreter_n n s) = active_voices s"
  by (induction n arbitrary: s) (simp_all add: vMIDIInterpreter_step_voices)

text \<open>
  Claim C3. The claim is that a Note On command enables the voice it names, sets its period
  from the pitch and resets its counter. The only code that consumes the command bytes is
  \<^verbatim>\<open>vMIDIInterpreter\<close>, whose branch for a received byte is empty: no byte sequence changes
  any voice (lemma \<open>vMIDIInterpreter_n_voices\<close>). With the three bytes of a MIDI Note On
  (status \<open>0x90\<close>, pitch \<open>0x3C\<close>, velocity \<open>0x40\<close>) queued and all voices disabled, three passes
  empty the queue and voice \<open>0\<close> is as before: disabled, period \<open>0\<close>.
\<close>

theorem vMIDIInterpreter_ignores_note_on:
  "messageQueue (vMIDIInterpreter_n 3 (synth_init\<lparr>messageQueue := [0x90, 0x3C, 0x40]\<rparr>)) = [] \<and>
   active_voices (vMIDIInterpreter_n 3 (synth_init\<lparr>messageQueue := [0x90, 0x3C, 0x40]\<rparr>)) 0
     = voice_off \<and>
   \<not> v_enable (active_voices
       (vMIDIInterpreter_n 3 (synth_init\<lparr>messageQueue := [0x90, 0x3C, 0x40]\<rparr>)) 0)"
  by (simp add: vMIDIInterpreter_n_voices numeral_3_eq_3 vMIDIInterpreter_step_def
      xQueueReceive_def synth_init_def voice_off_def)

section \<open>The producer task\<close>

lemma vSampleCalcTask_step_stalled:
  assumes "full_queue_flag s"
  shows "vSampleCalcTask_step cap s =
    Some (if length (sampleQueue s) < cap
          then s\<lparr>sampleQueue := sampleQueue s @ [sample_buffer s], full_queue_flag := False\<rparr>
          else s)"
  using assms by (simp add: vSampleCalcTask_step_def xQueueSendToBackFromISR_def)

lemma vSampleCalcTask_step_full:
  assumes "\<not> full_queue_flag s" and "cap \<le> length (sampleQueue s)"
    and "vSampleCalcTask_step cap s = Some s'"
  shows "sample_calc s = Some (s'\<lparr>full_queue_flag := False\<rparr>) \<and> full_queue_flag s' \<and>
    sampleQueue s' = sampleQueue s"
proof -
  from assms(1,3) obtain s1 where s1: "sample_calc s = Some s1"
    by (auto simp: vSampleCalcTask_step_def split: option.splits)
  from sample_calc_rest [OF s1] assms(1,2)
  have "\<not> full_queue_flag s1" "sampleQueue s1 = sampleQueue s" by simp_all
  with assms s1 show ?thesis
    by (auto simp: vSampleCalcTask_step_def xQueueSendToBackFromISR_def)
qed

lemma vSampleCalcTask_step_defined:
  assumes "\<not> full_queue_flag s" and "sample_calc s = Some s1"
  shows "\<exists>s'. vSampleCalcTask_step cap s = Some s'"
  using assms
  by (cases "xQueueSendToBackFromISR cap (sampleQueue s1) (sample_buffer s1)")
     (simp add: vSampleCalcTask_step_def)

lemma vPeriodicSPITask_step_stalled: "stalled p s \<Longrightarrow> stalled p (vPeriodicSPITask_step s)"
  by (simp add: stalled_def vPeriodicSPITask_step_def xQueueReceive_def split: list.splits)

lemma run_first_room:
  assumes "stalled p s"
  shows "case first_room cap es s of
      None \<Rightarrow> run cap es s = Some (output_passes es s) \<and> stalled p (output_passes es s)
    | Some (es1, es2) \<Rightarrow>
        es = es1 @ Producer # es2 \<and> first_room cap es1 s = None \<and>
        stalled p (output_passes es1 s) \<and>
        length (sampleQueue (output_passes es1 s)) < cap \<and>
        run cap es s =
          run cap es2 ((output_passes es1 s)
            \<lparr>sampleQueue := sampleQueue (output_passes es1 s) @ [fst p],
             full_queue_flag := False\<rparr>)"
  using assms
proof (induction es arbitrary: s)
  case Nil
  then show ?case by simp
next
  case (Cons e es)
  show ?case
  proof (cases e)
    case Output
    from Cons.IH [OF vPeriodicSPITask_step_stalled [OF Cons.prems]] Output
    show ?thesis by (auto split: option.splits)
  next
    case Producer
    from Cons.prems have flag: "full_queue_flag s" and buf: "sample_buffer s = fst p"
      by (simp_all add: stalled_def)
    show ?thesis
    proof (cases "length (sampleQueue s) < cap")
      case True
      with Producer Cons.prems flag buf show ?thesis
        by (simp add: vSampleCalcTask_step_stalled)
    next
      case False
      with Cons.IH [OF Cons.prems] Producer flag show ?thesis
        by (auto simp: vSampleCalcTask_step_stalled split: option.splits)
    qed
  qed
qed

text \<open>
  Claim C6. Let the producer, not yet stalled, compute a sample and find the queue full.
  The failed enqueue sets \<^verbatim>\<open>full_queue_flag\<close> and keeps the sample in \<^verbatim>\<open>sample_buffer\<close>; the queue
  is as before. From then on, in every state in which the task is stalled with that sample
  and those voices, a producer pass is one retry: with a free slot it appends exactly the
  pending sample and clears the flag, with a full queue it changes nothing. So for every
  sequence of producer and output-task passes that follows: while every producer pass meets
  a full queue, the state is the one the output-task passes alone produce, still stalled
  with the same sample and voices; and the first producer pass that meets a free slot
  appends the pending sample, after which the run continues from there.
\<close>

theorem vSampleCalcTask_stall_and_retry:
  assumes "\<not> full_queue_flag s0" and "cap \<le> length (sampleQueue s0)"
    and "vSampleCalcTask_step cap s0 = Some s"
  shows "sample_calc s0 = Some (s\<lparr>full_queue_flag := False\<rparr>) \<and> full_queue_flag s \<and>
    sampleQueue s = sampleQueue s0 \<and>
    (\<forall>t. stalled (sample_buffer s, active_voices s) t \<longrightarrow>
       vSampleCalcTask_step cap t =
         Some (if length (sampleQueue t) < cap
               then t\<lparr>sampleQueue := sampleQueue t @ [sample_buffer s], full_queue_flag := False\<rparr>
               else t)) \<and>
    (case first_room cap es s of
       None \<Rightarrow>
         run cap es s = Some (output_passes es s) \<and>
         stalled (sample_buffer s, active_voices s) (output_passes es s)
     | Some (es1, es2) \<Rightarrow>
         es = es1 @ Producer # es2 \<and> first_room cap es1 s = None \<and>
         stalled (sample_buffer s, active_voices s) (output_passes es1 s) \<and>
         length (sampleQueue (output_passes es1 s)) < cap \<and>
         run cap es s =
           run cap es2 ((output_passes es1 s)
             \<lparr>sampleQueue := sampleQueue (output_passes es1 s) @ [sample_buffer s],
              full_queue_flag := False\<rparr>))"
proof -
  note full = vSampleCalcTask_step_full [OF assms(1-3)]
  then have st: "stalled (sample_buffer s, active_voices s) s" by (simp add: stalled_def)
  have step: "\<forall>t. stalled (sample_buffer s, active_voices s) t \<longrightarrow>
       vSampleCalcTask_step cap t =
         Some (if length (sampleQueue t) < cap
               then t\<lparr>sampleQueue := sampleQueue t @ [sample_buffer s], full_queue_flag := False\<rparr>
               else t)"
    by (simp add: stalled_def vSampleCalcTask_step_stalled)
  from run_first_room [OF st, of cap es] have "case first_room cap es s of
       None \<Rightarrow>
         run cap es s = Some (output_passes es s) \<and>
         stalled (sample_buffer s, active_voices s) (output_passes es s)
     | Some (es1, es2) \<Rightarrow>
         es = es1 @ Producer # es2 \<and> first_room cap es1 s = None \<and>
         stalled (sample_buffer s, active_voices s) (output_passes es1 s) \<and>
         length (sampleQueue (output_passes es1 s)) < cap \<and>
         run cap es s =
           run cap es2 ((output_passes es1 s)
             \<lparr>sampleQueue := sampleQueue (output_passes es1 s) @ [sample_buffer s],
              full_queue_flag := False\<rparr>)"
    by (auto split: option.splits)
  with full step show ?thesis by blast
qed

lemma single_voice_queue_bank_ok: "bank_ok (single_voice TRI 0 4\<lparr>sampleQueue := [7, 8]\<rparr>)"
  by (simp add: bank_ok_def single_voice_def synth_init_def voice_off_def voice_ok_def)

theorem vSampleCalcTask_stall_and_retry_witness:
  "\<exists>s. \<not> full_queue_flag (single_voice TRI 0 4\<lparr>sampleQueue := [7, 8]\<rparr>) \<and>
     2 \<le> length (sampleQueue (single_voice TRI 0 4\<lparr>sampleQueue := [7, 8]\<rparr>)) \<and>
     vSampleCalcTask_step 2 (single_voice TRI 0 4\<lparr>sampleQueue := [7, 8]\<rparr>) = Some s \<and>
     full_queue_flag s \<and> sampleQueue s = [7, 8] \<and>
     stalled (sample_buffer s, active_voices s) s \<and>
     vSampleCalcTask_step 2 s = Some s \<and>
     first_room 2 [Producer, Output, Producer, Output] s = Some ([Producer, Output], [Output]) \<and>
     run 2 [Producer, Output, Producer, Output] s =
       Some (s\<lparr>sampleQueue := [sample_buffer s], full_queue_flag := False,
               spi_sent := [write_to_MCP4821 7, write_to_MCP4821 8]\<rparr>)"
proof -
  let ?w = "single_voice TRI 0 4\<lparr>sampleQueue := [7, 8]\<rparr>"
  have nf: "\<not> full_queue_flag ?w" by (simp add: single_voice_def synth_init_def)
  have len: "2 \<le> length (sampleQueue ?w)" by simp
  from sample_calc_n_defined [OF single_voice_queue_bank_ok, of 1]
  obtain s1 where s1: "sample_calc ?w = Some s1" by (auto split: option.splits)
  from vSampleCalcTask_step_defined [OF nf s1]
  obtain s where s: "vSampleCalcTask_step 2 ?w = Some s" by blast
  from vSampleCalcTask_step_full [OF nf len s]
  have flag: "full_queue_flag s" and q: "sampleQueue s = [7, 8]" by simp_all
  from sample_calc_rest [OF s1] have "spi_sent s1 = []"
    by (simp add: single_voice_def synth_init_def)
  with vSampleCalcTask_step_full [OF nf len s] s1 have spi: "spi_sent s = []"
    by (cases s, cases s1) simp
  have st: "stalled (sample_buffer s, active_voices s) s" using flag by (simp add: stalled_def)
  have fr: "first_room 2 [Producer, Output, Producer, Output] s = Some ([Producer, Output], [Output])"
    using q by (simp add: vPeriodicSPITask_step_def xQueueReceive_def)
  from vSampleCalcTask_stall_and_retry [OF nf len s, of "[Producer, Output, Producer, Output]"]
    nf len s flag q spi st fr
  show ?thesis
    by (auto simp: vPeriodicSPITask_step_def xQueueReceive_def)
qed

section \<open>The drain loop of the UART task\<close>

lemma xQueueSendToBack_not_freed:
  "xQueueSendToBack cap False q x = (if length q < cap then (True, q @ [x]) else (False, q))"
  by (simp add: xQueueSendToBack_def)

lemma vUARTHandlerTask_drain_not_freed:
  "vUARTHandlerTask_drain cap rx (replicate n False) q
     = q @ take (cap - length q) (map ucast rx)"
proof (induction rx arbitrary: q n)
  case Nil
  show ?case by simp
next
  case (Cons temp rx)
  have hd: "(case replicate n False of [] \<Rightarrow> False | f # _ \<Rightarrow> f) = False"
    by (cases n) simp_all
  have tl: "tl (replicate n False) = replicate (n - 1) False"
    by (cases n) simp_all
  show ?case
  proof (cases "length q < cap")
    case True
    then have "cap - length q = Suc (cap - length (q @ [ucast temp :: 8 word]))" by simp
    with True show ?thesis
      by (simp add: hd tl xQueueSendToBack_not_freed Cons.IH Let_def del: length_append)
  next
    case False
    then show ?thesis
      by (simp add: hd tl xQueueSendToBack_not_freed Cons.IH Let_def)
  qed
qed

lemma vUARTHandlerTask_drain_order:
  "\<exists>acc k. subseq acc (map ucast rx) \<and> vUARTHandlerTask_drain cap rx env q = drop k (q @ acc)"
proof (induction rx arbitrary: q env)
  case Nil
  have "subseq [] (map ucast ([] :: 16 word list) :: 8 word list) \<and>
    vUARTHandlerTask_drain cap [] env q = drop 0 (q @ [])" by simp
  then show ?case by blast
next
  case (Cons temp rx)
  define x where "x = (ucast temp :: 8 word)"
  define freed where "freed = (case env of [] \<Rightarrow> False | f # _ \<Rightarrow> f)"
  define q' where "q' = snd (xQueueSendToBack cap freed q x)"
  have unfold: "vUARTHandlerTask_drain cap (temp # rx) env q = vUARTHandlerTask_drain cap rx (tl env) q'"
    by (simp add: x_def freed_def q'_def split: prod.splits)
  from Cons.IH [of "tl env" q'] obtain acc k where acc: "subseq acc (map ucast rx)"
    and res: "vUARTHandlerTask_drain cap rx (tl env) q' = drop k (q' @ acc)" by blast
  have "q' = q @ [x] \<or> (q \<noteq> [] \<and> q' = tl q @ [x]) \<or> q' = q"
    by (simp add: q'_def xQueueSendToBack_def)
  then show ?case
  proof (elim disjE conjE)
    assume "q' = q @ [x]"
    with acc res unfold
    have "subseq (x # acc) (map ucast (temp # rx)) \<and>
      vUARTHandlerTask_drain cap (temp # rx) env q = drop k (q @ x # acc)"
      by (simp add: x_def)
    then show ?thesis by blast
  next
    assume "q \<noteq> []" and "q' = tl q @ [x]"
    then have "drop k (q' @ acc) = drop (Suc k) (q @ x # acc)"
      by (cases q) simp_all
    with acc res unfold
    have "subseq (x # acc) (map ucast (temp # rx)) \<and>
      vUARTHandlerTask_drain cap (temp # rx) env q = drop (Suc k) (q @ x # acc)"
      by (simp add: x_def)
    then show ?thesis by blast
  next
    assume "q' = q"
    moreover from acc have "subseq acc (ucast temp # map ucast rx)" by (rule list_emb_Cons)
    ultimately have "subseq acc (map ucast (temp # rx)) \<and>
      vUARTHandlerTask_drain cap (temp # rx) env q = drop k (q @ acc)"
      using res unfold by simp
    then show ?thesis by blast
  qed
qed

lemma vUARTHandlerTask_drain_append:
  "vUARTHandlerTask_drain cap (rx1 @ rx2) env q
     = vUARTHandlerTask_drain cap rx2 (drop (length rx1) env) (vUARTHandlerTask_drain cap rx1 env q)"
proof (induction rx1 arbitrary: env q)
  case Nil
  show ?case by simp
next
  case (Cons temp rx1)
  have "drop (Suc (length rx1)) env = drop (length rx1) (tl env)" by (simp add: drop_Suc)
  then show ?case by (simp add: Cons.IH Let_def split: prod.splits)
qed

lemma vUARTHandlerTask_drain_single:
  "vUARTHandlerTask_drain cap [temp] env q =
     (if length q < cap then q @ [ucast temp]
      else if (case env of [] \<Rightarrow> False | f # _ \<Rightarrow> f) \<and> q \<noteq> [] \<and> 0 < cap
      then tl q @ [ucast temp]
      else q)"
  by (simp add: xQueueSendToBack_def)

lemma vUARTHandlerTask_pass_wake:
  "vUARTHandlerTask_pass cap rx env (usart_read_callback s) =
     s\<lparr>UARTsem := False, messageQueue := vUARTHandlerTask_drain cap rx env (messageQueue s)\<rparr>"
  by (simp add: vUARTHandlerTask_pass_def usart_read_callback_def)

lemma vUARTHandlerTask_pass_blocked:
  "\<not> UARTsem s \<Longrightarrow> vUARTHandlerTask_pass cap rx env s = s"
  by (simp add: vUARTHandlerTask_pass_def)

text \<open>
  Claim C8. The drain loop handles the data that the reader reports one after the other,
  each by one push and in the order of arrival: draining \<open>rx1 @ rx2\<close> is draining \<open>rx1\<close> and
  then \<open>rx2\<close>, whatever became of the pushes for \<open>rx1\<close>, and draining one datum is one push
  of its low byte, which is appended when the queue has a free slot, appended behind the
  rest when the queue is full and its reader takes the oldest item within the wait, and
  otherwise dropped with the queue unchanged; the status of the push is not looked at and
  the byte is not offered again. Hence the queue afterwards is the old queue followed by
  some of the new bytes in their order of arrival, less the items taken from its front, and
  when no slot is freed during any wait it is the old queue followed by the bytes that fit.
  After an interrupt has given the semaphore, one pass of the task takes it and changes
  nothing but the command queue, which it drains into; the task is then blocked at
  \<^verbatim>\<open>xSemaphoreTake\<close>: without the semaphore a pass changes nothing, whatever data is waiting.
\<close>

theorem vUARTHandlerTask_wake_drains:
  "vUARTHandlerTask_drain cap (rx1 @ rx2) env q
     = vUARTHandlerTask_drain cap rx2 (drop (length rx1) env)
         (vUARTHandlerTask_drain cap rx1 env q) \<and>
   vUARTHandlerTask_drain cap [temp] env q =
     (if length q < cap then q @ [ucast temp]
      else if (case env of [] \<Rightarrow> False | f # _ \<Rightarrow> f) \<and> q \<noteq> [] \<and> 0 < cap
      then tl q @ [ucast temp]
      else q) \<and>
   vUARTHandlerTask_drain cap [] env q = q \<and>
   (\<exists>acc k. subseq acc (map ucast rx) \<and>
       vUARTHandlerTask_drain cap rx env q = drop k (q @ acc)) \<and>
   vUARTHandlerTask_drain cap rx (replicate n False) q
     = q @ take (cap - length q) (map ucast rx) \<and>
   vUARTHandlerTask_pass cap rx env (usart_read_callback s) =
     s\<lparr>UARTsem := False, messageQueue := vUARTHandlerTask_drain cap rx env (messageQueue s)\<rparr> \<and>
   vUARTHandlerTask_pass cap rx' env'
       (vUARTHandlerTask_pass cap rx env (usart_read_callback s))
     = vUARTHandlerTask_pass cap rx env (usart_read_callback s) \<and>
   (\<not> UARTsem s \<longrightarrow> vUARTHandlerTask_pass cap rx env s = s)"
proof -
  have "vUARTHandlerTask_pass cap rx' env'
       (vUARTHandlerTask_pass cap rx env (usart_read_callback s))
     = vUARTHandlerTask_pass cap rx env (usart_read_callback s)"
    by (rule vUARTHandlerTask_pass_blocked) (simp add: vUARTHandlerTask_pass_wake)
  with vUARTHandlerTask_drain_append [of cap rx1 rx2 env q]
    vUARTHandlerTask_drain_single [of cap temp env q]
    vUARTHandlerTask_drain_order [of rx cap env q]
    vUARTHandlerTask_drain_not_freed [of cap rx n q]
    vUARTHandlerTask_pass_wake [of cap rx env s]
    vUARTHandlerTask_pass_blocked [of s cap rx env]
  show ?thesis by simp
qed

theorem vUARTHandlerTask_wake_drains_witness:
  "\<not> UARTsem synth_init \<and>
   vUARTHandlerTask_pass 100 [0x90, 0x3C, 0x40] [] synth_init = synth_init \<and>
   vUARTHandlerTask_pass 100 [0x90, 0x3C, 0x40] [] (usart_read_callback synth_init)
     = synth_init\<lparr>messageQueue := [0x90, 0x3C, 0x40]\<rparr> \<and>
   vUARTHandlerTask_pass 100 [0x80] []
       (vUARTHandlerTask_pass 100 [0x90, 0x3C, 0x40] [] (usart_read_callback synth_init))
     = synth_init\<lparr>messageQueue := [0x90, 0x3C, 0x40]\<rparr> \<and>
   vUARTHandlerTask_drain 2 ([0x90] @ [0x1FF]) [False, True] [0x80, 0x81] = [0x81, 0xFF]"
  using vUARTHandlerTask_wake_drains
    [of 100 "[]" "[]" "[]" "[]" 0 "[0x90, 0x3C, 0x40]" 0 synth_init "[0x80]" "[]"]
    vUARTHandlerTask_wake_drains
    [of 2 "[0x90]" "[0x1FF]" "[False, True]" "[0x80, 0x81]" 0 "[]" 0 synth_init "[]" "[]"]
  by (simp add: synth_init_def xQueueSendToBack_def usart_read_callback_def
      vUARTHandlerTask_pass_def)

lemma vUARTHandlerTask_drain_example:
  "vUARTHandlerTask_drain 100 [0x90, 0x3C, 0x40] [] [] = [0x90, 0x3C, 0x40] \<and>
   vUARTHandlerTask_drain 2 [0x90, 0x3C, 0x40] [] [0x80] = [0x80, 0x90]"
  by (simp add: xQueueSendToBack_def)

end
